theory Spec2Isabelle
  imports Main
begin

section \<open>Python exceptions and sequence primitives\<close>

text \<open>
  The exceptions the modelled code raises or lets through. A function that can raise
  returns \<open>error + 'a\<close>, with \<open>Inl\<close> for the exception.
\<close>

datatype error = StopIteration | IndexError | TypeError | ValueError | AttributeError | IOError

text \<open>
  Python's \<^verbatim>\<open>xs[i]\<close> for an integer \<open>i\<close>: a negative index counts from the end, and an
  index outside the sequence raises IndexError.
\<close>

definition py_index :: "'a list \<Rightarrow> int \<Rightarrow> error + 'a" where
  "py_index xs i =
     (if 0 \<le> i \<and> i < int (length xs) then Inr (xs ! nat i)
      else if i < 0 \<and> - int (length xs) \<le> i then Inr (xs ! nat (int (length xs) + i))
      else Inl IndexError)"

section \<open>stream.py: IStreamBuffer\<close>

text \<open>
  The wrapped stream is the list of lines it has not returned yet: its \<^verbatim>\<open>next()\<close> pops the
  head and raises StopIteration on the empty list. The fields are those of the class.
\<close>

record isb =
  isb_stream :: "string list"
  isb_buffer :: "string list"
  isb_bufpos :: int

text \<open>
  The loop of \<^verbatim>\<open>__init__\<close>: \<^verbatim>\<open>while len(self._buffer) < bufsize\<close>, appending one line per
  turn and leaving the loop when the stream raises StopIteration.
\<close>

fun isb_fill :: "int \<Rightarrow> string list \<Rightarrow> string list \<Rightarrow> string list \<times> string list" where
  "isb_fill bufsize buf [] = (buf, [])"
| "isb_fill bufsize buf (l # ls) =
     (if int (length buf) < bufsize then isb_fill bufsize (buf @ [l]) ls else (buf, l # ls))"

definition ISB_init :: "string list \<Rightarrow> int \<Rightarrow> isb" where
  "ISB_init stream bufsize =
     (case isb_fill bufsize [] stream of
        (buf, rest) \<Rightarrow> \<lparr>isb_stream = rest, isb_buffer = buf, isb_bufpos = 0\<rparr>)"

text \<open>
  \<^verbatim>\<open>next()\<close>: the indexed read of the buffer; on IndexError a line is pulled from the stream
  (StopIteration propagates with the state untouched), \<^verbatim>\<open>del self._buffer[0]\<close> (IndexError on
  an empty buffer, after the stream has already been advanced) and the append.
\<close>

definition ISB_next :: "isb \<Rightarrow> (error + string) \<times> isb" where
  "ISB_next s =
     (case py_index (isb_buffer s) (isb_bufpos s) of
        Inr line \<Rightarrow> (Inr line, s\<lparr>isb_bufpos := isb_bufpos s + 1\<rparr>)
      | Inl e \<Rightarrow>
          (if e \<noteq> IndexError then (Inl e, s)
           else (case isb_stream s of
              [] \<Rightarrow> (Inl StopIteration, s)
            | l # ls \<Rightarrow>
                (case isb_buffer s of
                   [] \<Rightarrow> (Inl IndexError, s\<lparr>isb_stream := ls\<rparr>)
                 | b # bs \<Rightarrow> (Inr l, s\<lparr>isb_stream := ls, isb_buffer := bs @ [l]\<rparr>)))))"

definition ISB_rewind :: "int \<Rightarrow> isb \<Rightarrow> isb" where
  "ISB_rewind count s = s\<lparr>isb_bufpos := max 0 (isb_bufpos s - abs count)\<rparr>"

text \<open>A client's calls, and the state they leave (a call that raises leaves what the code leaves).\<close>

datatype isb_op = Next | Rewind int

fun isb_step :: "isb_op \<Rightarrow> isb \<Rightarrow> isb" where
  "isb_step Next s = snd (ISB_next s)"
| "isb_step (Rewind n) s = ISB_rewind n s"

fun isb_run :: "isb_op list \<Rightarrow> isb \<Rightarrow> isb" where
  "isb_run [] s = s"
| "isb_run (c # cs) s = isb_run cs (isb_step c s)"

text \<open>\<open>k\<close> calls of \<^verbatim>\<open>next()\<close> in a row: the lines returned and the final state, or the first
  exception.\<close>

fun ISB_take :: "nat \<Rightarrow> isb \<Rightarrow> error + (string list \<times> isb)" where
  "ISB_take 0 s = Inr ([], s)"
| "ISB_take (Suc k) s =
     (case ISB_next s of
        (Inl e, s') \<Rightarrow> Inl e
      | (Inr l, s') \<Rightarrow>
          (case ISB_take k s' of Inl e \<Rightarrow> Inl e | Inr (ls, s'') \<Rightarrow> Inr (l # ls, s'')))"

definition isb_inv :: "int \<Rightarrow> isb \<Rightarrow> bool" where
  "isb_inv C s \<longleftrightarrow>
     int (length (isb_buffer s)) \<le> C \<and> 0 \<le> isb_bufpos s \<and>
     isb_bufpos s \<le> int (length (isb_buffer s))"

text \<open>
  What links a state to the lines already returned (\<open>h\<close>) and to the source \<open>src\<close> the
  buffer was built on: the lines behind the cursor are the most recent ones returned, and
  the lines returned before them (\<open>pre\<close>) have left the window.
\<close>

definition hist_inv :: "int \<Rightarrow> string list \<Rightarrow> string list \<Rightarrow> isb \<Rightarrow> bool" where
  "hist_inv C src h s \<longleftrightarrow>
     (\<exists>pre. h = pre @ take (nat (isb_bufpos s)) (isb_buffer s) \<and>
        src = pre @ isb_buffer s @ isb_stream s \<and>
        0 \<le> isb_bufpos s \<and> isb_bufpos s \<le> int (length (isb_buffer s)) \<and>
        (pre \<noteq> [] \<longrightarrow> isb_bufpos s = int (length (isb_buffer s))) \<and>
        (pre \<noteq> [] \<or> isb_stream s \<noteq> [] \<longrightarrow> C \<le> int (length (isb_buffer s))))"

section \<open>stream.py: IStreamZlib\<close>

text \<open>
  zlib is not part of the repository: the adaptor only relies on the contract of a streaming
  decompressor. \<open>z_pending\<close> holds what the successive calls
  \<^verbatim>\<open>self._zlib.decompress(self._stream.read(self.block_size))\<close> will return, in order, as the
  compressed source, the block size and zlib fix it. A block from which zlib can emit nothing
  yet (the bytes of a gzip header, the start of a deflate block) gives the empty string; once
  the source is exhausted \<^verbatim>\<open>read\<close> returns nothing and so does \<^verbatim>\<open>decompress\<close>. \<open>z_buffer\<close> is
  \<^verbatim>\<open>self._buffer\<close>, the list of decompressed characters not returned yet.
\<close>

record zs =
  z_pending :: "string list"
  z_buffer :: string

definition Z_init :: "string list \<Rightarrow> zs" where
  "Z_init outputs = \<lparr>z_pending = outputs, z_buffer = []\<rparr>"

text \<open>\<^verbatim>\<open>_read\<close>: extends the buffer and returns \<^verbatim>\<open>len(data) > 0\<close>.\<close>

definition Z_read :: "zs \<Rightarrow> bool \<times> zs" where
  "Z_read s =
     (case z_pending s of
        [] \<Rightarrow> (False, s)
      | data # rest \<Rightarrow> (0 < length data, s\<lparr>z_pending := rest, z_buffer := z_buffer s @ data\<rparr>))"

text \<open>\<^verbatim>\<open>list.index(x)\<close>: the position of the first \<open>x\<close>, or ValueError.\<close>

fun list_index :: "'a \<Rightarrow> 'a list \<Rightarrow> error + nat" where
  "list_index x [] = Inl ValueError"
| "list_index x (y # ys) =
     (if y = x then Inr 0 else (case list_index x ys of Inl e \<Rightarrow> Inl e | Inr i \<Rightarrow> Inr (Suc i)))"

text \<open>
  The \<^verbatim>\<open>while True\<close> loop of \<^verbatim>\<open>next()\<close>, returning \<^verbatim>\<open>pos\<close>: it goes round again only when
  \<^verbatim>\<open>_read()\<close> returned true, which consumes one pending output.
\<close>

function Z_scan :: "zs \<Rightarrow> nat \<times> zs" where
  "Z_scan s =
     (case list_index CHR 0x0A (z_buffer s) of
        Inr i \<Rightarrow> (i + 1, s)
      | Inl e \<Rightarrow>
          (case Z_read s of
             (True, s') \<Rightarrow> Z_scan s'
           | (False, s') \<Rightarrow> (length (z_buffer s'), s')))"
  by pat_completeness auto
termination
  by (relation "measure (\<lambda>s. length (z_pending s))")
     (auto simp: Z_read_def split: list.splits)

declare Z_scan.simps [simp del]

definition Z_next :: "zs \<Rightarrow> (error + string) \<times> zs" where
  "Z_next s =
     (case Z_scan s of
        (pos, s') \<Rightarrow>
          (if z_buffer s' = [] then (Inl StopIteration, s')
           else (Inr (take pos (z_buffer s')), s'\<lparr>z_buffer := drop pos (z_buffer s')\<rparr>)))"

text \<open>Everything still to come: the buffer followed by the pending outputs.\<close>

definition z_rest :: "zs \<Rightarrow> string" where
  "z_rest s = z_buffer s @ concat (z_pending s)"

lemma Z_scan_rest: "z_rest (snd (Z_scan s)) = z_rest s"
proof (induction s rule: Z_scan.induct)
  case (1 s)
  show ?case
  proof (cases "list_index CHR 0x0A (z_buffer s)")
    case (Inr i)
    then show ?thesis by (simp add: Z_scan.simps [of s])
  next
    case (Inl e)
    show ?thesis
    proof (cases "Z_read s")
      case (Pair b s')
      have r: "z_rest s' = z_rest s"
        using Pair by (auto simp: Z_read_def z_rest_def split: list.splits)
      show ?thesis
      proof (cases b)
        case True
        with 1 [OF Inl] Pair r Inl show ?thesis by (simp add: Z_scan.simps [of s])
      next
        case False
        with Pair r Inl show ?thesis by (simp add: Z_scan.simps [of s])
      qed
    qed
  qed
qed

lemma Z_scan_pos: "0 < fst (Z_scan s) \<or> z_buffer (snd (Z_scan s)) = []"
proof (induction s rule: Z_scan.induct)
  case (1 s)
  show ?case
  proof (cases "list_index CHR 0x0A (z_buffer s)")
    case (Inr i)
    then show ?thesis by (simp add: Z_scan.simps [of s])
  next
    case (Inl e)
    show ?thesis
    proof (cases "Z_read s")
      case (Pair b s')
      show ?thesis
      proof (cases b)
        case True
        with 1 [OF Inl] Pair Inl show ?thesis by (simp add: Z_scan.simps [of s])
      next
        case False
        with Pair Inl show ?thesis by (auto simp add: Z_scan.simps [of s])
      qed
    qed
  qed
qed

lemma Z_next_decreases:
  assumes "Z_next s = (Inr l, s')"
  shows "length (z_rest s') < length (z_rest s)"
proof -
  obtain pos s1 where sc: "Z_scan s = (pos, s1)" by (cases "Z_scan s")
  from assms sc have ne: "z_buffer s1 \<noteq> []" and s': "s' = s1\<lparr>z_buffer := drop pos (z_buffer s1)\<rparr>"
    by (auto simp: Z_next_def split: if_splits)
  from Z_scan_pos [of s] sc ne have "0 < pos" by simp
  with ne have "length (drop pos (z_buffer s1)) < length (z_buffer s1)" by simp
  then have "length (z_rest s') < length (z_rest s1)" by (simp add: s' z_rest_def)
  with Z_scan_rest [of s] sc show ?thesis by simp
qed

text \<open>Iterating \<^verbatim>\<open>next()\<close> until it raises: the lines a \<^verbatim>\<open>for\<close> loop over the adaptor sees.\<close>

function Z_lines :: "zs \<Rightarrow> string list" where
  "Z_lines s = (case Z_next s of (Inl e, s') \<Rightarrow> [] | (Inr l, s') \<Rightarrow> l # Z_lines s')"
  by pat_completeness auto
termination
  by (relation "measure (\<lambda>s. length (z_rest s))") (auto dest: Z_next_decreases [OF sym])

declare Z_lines.simps [simp del]

text \<open>
  The lines of a text, each with its terminator, the last one possibly without: the lines of
  the uncompressed payload.
\<close>

fun text_lines_acc :: "string \<Rightarrow> string \<Rightarrow> string list" where
  "text_lines_acc cur [] = (if cur = [] then [] else [cur])"
| "text_lines_acc cur (c # cs) =
     (if c = CHR 0x0A then (cur @ [c]) # text_lines_acc [] cs else text_lines_acc (cur @ [c]) cs)"

definition text_lines :: "string \<Rightarrow> string list" where
  "text_lines s = text_lines_acc [] s"

section \<open>writer.py: merging tokens into a line\<close>

text \<open>
  What a codec's \<^verbatim>\<open>encode\<close> returns and a reader's \<^verbatim>\<open>_split\<close> selects: a string, or a
  sequence of tokens (an array field).
\<close>

datatype token = Str string | Seq "token list"

text \<open>
  The \<^verbatim>\<open>while pos < len(tokens)\<close> loop shared by both \<^verbatim>\<open>_merge\<close> methods. On a string the
  position moves on by one; otherwise \<^verbatim>\<open>tokens[pos:pos+1] = token\<close> puts the elements of the
  sequence in the place of the entry and \<^verbatim>\<open>pos += len(token)\<close> moves past them.
\<close>

function merge_loop :: "nat \<Rightarrow> token list \<Rightarrow> token list" where
  "merge_loop pos tokens =
     (if pos < length tokens then
        (case tokens ! pos of
           Str s \<Rightarrow> merge_loop (pos + 1) tokens
         | Seq ts \<Rightarrow> merge_loop (pos + length ts) (take pos tokens @ ts @ drop (pos + 1) tokens))
      else tokens)"
  by pat_completeness auto
termination
  by (relation "measure (\<lambda>(pos, tokens). length tokens - pos)") auto

declare merge_loop.simps [simp del]

text \<open>
  \<^verbatim>\<open>delim.join(tokens)\<close> raises TypeError on an item that is not a string.
\<close>

fun strings_of :: "token list \<Rightarrow> error + string list" where
  "strings_of [] = Inr []"
| "strings_of (Str s # ts) = (case strings_of ts of Inl e \<Rightarrow> Inl e | Inr ss \<Rightarrow> Inr (s # ss))"
| "strings_of (Seq xs # ts) = Inl TypeError"

fun join_strs :: "string \<Rightarrow> string list \<Rightarrow> string" where
  "join_strs d [] = []"
| "join_strs d [s] = s"
| "join_strs d (s # t # ss) = s @ d @ join_strs d (t # ss)"

definition py_join :: "string \<Rightarrow> token list \<Rightarrow> error + string" where
  "py_join d tokens = (case strings_of tokens of Inl e \<Rightarrow> Inl e | Inr ss \<Rightarrow> Inr (join_strs d ss))"

definition DelimitedWriter_merge :: "string \<Rightarrow> token list \<Rightarrow> error + string" where
  "DelimitedWriter_merge delim tokens = py_join delim (merge_loop 0 tokens)"

definition FixedWidthWriter_merge :: "token list \<Rightarrow> error + string" where
  "FixedWidthWriter_merge tokens = py_join [] (merge_loop 0 tokens)"

text \<open>
  One level of flattening, and the token lists nested at most one level deep: every entry is
  a string or a sequence of strings.
\<close>

fun splice1 :: "token \<Rightarrow> token list" where
  "splice1 (Str s) = [Str s]"
| "splice1 (Seq ts) = ts"

fun is_Str :: "token \<Rightarrow> bool" where
  "is_Str (Str s) = True"
| "is_Str (Seq ts) = False"

fun the_Str :: "token \<Rightarrow> string" where
  "the_Str (Str s) = s"
| "the_Str (Seq ts) = []"

fun flat_token :: "token \<Rightarrow> bool" where
  "flat_token (Str s) = True"
| "flat_token (Seq ts) = list_all is_Str ts"

definition shallow :: "token list \<Rightarrow> bool" where
  "shallow tokens = list_all flat_token tokens"

section \<open>Fields and codecs\<close>

text \<open>
  Modelled from the spec: \<^verbatim>\<open>Field\<close>, \<^verbatim>\<open>make_fields\<close> (serial/core/_util.py) and the data types
  (\<^verbatim>\<open>IntType\<close>, \<^verbatim>\<open>ArrayType\<close>) are not among the sources. A field has a name, a position and a
  codec (\<^verbatim>\<open>dtype\<close>) with \<^verbatim>\<open>decode\<close> and \<^verbatim>\<open>encode\<close>; the readers use the position in
  \<^verbatim>\<open>tokens[field.pos]\<close> and \<^verbatim>\<open>line[field.pos]\<close>, so it is an integer index or a slice
  \<^verbatim>\<open>[beg, end)\<close>. The codecs are parameters: \<^verbatim>\<open>decode\<close> takes the token selected for the field
  and may raise, \<^verbatim>\<open>encode\<close> takes \<^verbatim>\<open>record.get(name)\<close> (\<open>None\<close> for a missing key) and returns
  a token or a sequence of tokens.
\<close>

datatype position = Index int | Slice int int

record 'v dtype =
  dtype_decode :: "token \<Rightarrow> error + 'v"
  dtype_encode :: "'v option \<Rightarrow> error + token"

record 'v field =
  field_name :: string
  field_pos :: position
  field_dtype :: "'v dtype"



section \<open>reader.py: tabular readers\<close>






text \<open>
  A comprehension over a list whose body can raise: the first exception ends it.
\<close>

fun collect :: "('a \<Rightarrow> error + 'b) \<Rightarrow> 'a list \<Rightarrow> error + 'b list" where
  "collect g [] = Inr []"
| "collect g (x # xs) =
     (case g x of
        Inl e \<Rightarrow> Inl e
      | Inr y \<Rightarrow> (case collect g xs of Inl e \<Rightarrow> Inl e | Inr ys \<Rightarrow> Inr (y # ys)))"











section \<open>writer.py: tabular writers\<close>




definition TabularWriter_fields :: "'v field list \<Rightarrow> string list" where
  "TabularWriter_fields fieldset = map field_name fieldset"


section \<open>reader.py and writer.py: filters and the reader loop\<close>

text \<open>
  A filter takes a record and returns a record, returns \<open>None\<close> (reject) or raises
  (StopIteration to end the input).
\<close>

type_synonym 'r filter = "'r \<Rightarrow> error + 'r option"

text \<open>
  \<^verbatim>\<open>_Reader.filter(*callbacks)\<close> and \<^verbatim>\<open>_Writer.filter(callback=None)\<close> on the list
  \<^verbatim>\<open>self._filters\<close>. The arguments of a call are a list; an argument can be Python's \<open>None\<close>.
  The writer's method has one optional parameter: a call with two or more arguments raises
  TypeError.
\<close>

definition Reader_filter :: "'f option list \<Rightarrow> 'f option list \<Rightarrow> 'f option list" where
  "Reader_filter callbacks filters = (if callbacks = [] then [] else filters @ callbacks)"

definition Writer_filter :: "'f option list \<Rightarrow> 'f option list \<Rightarrow> error + 'f option list" where
  "Writer_filter args filters =
     (case args of
        [] \<Rightarrow> Inr []
      | [callback] \<Rightarrow> (if callback = None then Inr [] else Inr (filters @ [callback]))
      | _ \<Rightarrow> Inl TypeError)"

text \<open>
  The \<^verbatim>\<open>for callback in self._filters\<close> loop of \<^verbatim>\<open>next()\<close>: each filter gets the record the one
  before returned, and the loop is left at the first \<open>None\<close>. Calling an entry that is
  \<open>None\<close> raises TypeError.
\<close>

fun apply_filters :: "'r filter option list \<Rightarrow> 'r \<Rightarrow> error + 'r option" where
  "apply_filters [] record = Inr (Some record)"
| "apply_filters (cb # cbs) record =
     (case cb of
        None \<Rightarrow> Inl TypeError
      | Some callback \<Rightarrow>
          (case callback record of
             Inl e \<Rightarrow> Inl e
           | Inr None \<Rightarrow> Inr None
           | Inr (Some record') \<Rightarrow> apply_filters cbs record'))"








text \<open>
  The classes of reader.py and writer.py: their method resolution order, the methods each
  class body defines, and the attributes \<^verbatim>\<open>__init__\<close> sets on an instance. An attribute
  that is neither set on the instance nor defined along the order raises AttributeError.
\<close>

datatype pyclass =
    C_Reader | C_TabularReader | C_DelimitedReader | C_FixedWidthReader | C_ReaderSequence
  | C_Writer | C_TabularWriter | C_DelimitedWriter | C_FixedWidthWriter

fun mro :: "pyclass \<Rightarrow> pyclass list" where
  "mro C_Reader = [C_Reader]"
| "mro C_TabularReader = [C_TabularReader, C_Reader]"
| "mro C_DelimitedReader = [C_DelimitedReader, C_TabularReader, C_Reader]"
| "mro C_FixedWidthReader = [C_FixedWidthReader, C_TabularReader, C_Reader]"
| "mro C_ReaderSequence = [C_ReaderSequence, C_Reader]"
| "mro C_Writer = [C_Writer]"
| "mro C_TabularWriter = [C_TabularWriter, C_Writer]"
| "mro C_DelimitedWriter = [C_DelimitedWriter, C_TabularWriter, C_Writer]"
| "mro C_FixedWidthWriter = [C_FixedWidthWriter, C_TabularWriter, C_Writer]"

fun class_defs :: "pyclass \<Rightarrow> string list" where
  "class_defs C_Reader = [''__init__'', ''filter'', ''next'', ''__iter__'', ''_get'']"
| "class_defs C_TabularReader = [''open'', ''__init__'', ''_get'', ''_split'']"
| "class_defs C_DelimitedReader = [''__init__'', ''_split'']"
| "class_defs C_FixedWidthReader = [''_split'']"
| "class_defs C_ReaderSequence = [''__init__'', ''_get'', ''_open'', ''__enter__'', ''__exit__'']"
| "class_defs C_Writer = [''__init__'', ''filter'', ''write'', ''dump'', ''_put'']"
| "class_defs C_TabularWriter = [''__init__'', ''fields'', ''_put'', ''_merge'']"
| "class_defs C_DelimitedWriter = [''__init__'', ''_merge'']"
| "class_defs C_FixedWidthWriter = [''_merge'']"

fun instance_attrs :: "pyclass \<Rightarrow> string list" where
  "instance_attrs C_Reader = [''_filters'']"
| "instance_attrs C_TabularReader = [''_filters'', ''_stream'', ''_fields'', ''_endl'']"
| "instance_attrs C_DelimitedReader = [''_filters'', ''_stream'', ''_fields'', ''_endl'', ''_delim'']"
| "instance_attrs C_FixedWidthReader = [''_filters'', ''_stream'', ''_fields'', ''_endl'']"
| "instance_attrs C_ReaderSequence = [''_filters'', ''_input'', ''_reader'', ''_active'']"
| "instance_attrs C_Writer = [''_stream'', ''_filters'']"
| "instance_attrs C_TabularWriter = [''_stream'', ''_filters'', ''_fields'', ''_endl'']"
| "instance_attrs C_DelimitedWriter = [''_stream'', ''_filters'', ''_fields'', ''_endl'', ''_delim'']"
| "instance_attrs C_FixedWidthWriter = [''_stream'', ''_filters'', ''_fields'', ''_endl'']"

definition has_attr :: "pyclass \<Rightarrow> string \<Rightarrow> bool" where
  "has_attr c a \<longleftrightarrow> a \<in> set (instance_attrs c) \<or> find (\<lambda>k. a \<in> set (class_defs k)) (mro c) \<noteq> None"

text \<open>
  The call \<^verbatim>\<open>obj.fields()\<close> on an instance of a class: the only definition of \<^verbatim>\<open>fields\<close> is
  that of \<^verbatim>\<open>_TabularWriter\<close>.
\<close>

definition call_fields :: "pyclass \<Rightarrow> 'v field list \<Rightarrow> error + string list" where
  "call_fields c fieldset =
     (if has_attr c ''fields'' then Inr (TabularWriter_fields fieldset) else Inl AttributeError)"



section \<open>Lines, positions and example field sets\<close>










section \<open>reader.py: ReaderSequence\<close>


















chapter \<open>Properties\<close>

section \<open>Properties of IStreamBuffer\<close>

lemma isb_fill_length:
  "int (length buf) \<le> C \<Longrightarrow> int (length (fst (isb_fill C buf ls))) \<le> C"
  by (induction C buf ls rule: isb_fill.induct) auto

lemma isb_inv_init: "0 \<le> C \<Longrightarrow> isb_inv C (ISB_init src C)"
  using isb_fill_length [of "[]" C src]
  by (auto simp: ISB_init_def isb_inv_def split: prod.splits)

lemma isb_inv_next: "isb_inv C s \<Longrightarrow> isb_inv C (snd (ISB_next s))"
  by (auto simp: isb_inv_def ISB_next_def py_index_def Let_def split: list.splits)

lemma isb_inv_rewind: "isb_inv C s \<Longrightarrow> isb_inv C (ISB_rewind n s)"
  by (auto simp: isb_inv_def ISB_rewind_def)

lemma isb_len_next: "length (isb_buffer (snd (ISB_next s))) = length (isb_buffer s)"
  by (auto simp: ISB_next_def py_index_def Let_def split: list.splits)

lemma isb_len_rewind: "length (isb_buffer (ISB_rewind n s)) = length (isb_buffer s)"
  by (simp add: ISB_rewind_def)

lemma isb_inv_run: "isb_inv C s \<Longrightarrow> isb_inv C (isb_run cs s)"
proof (induction cs arbitrary: s)
  case Nil
  then show ?case by simp
next
  case (Cons c cs)
  have "isb_inv C (isb_step c s)"
    using Cons.prems by (cases c) (simp_all add: isb_inv_next isb_inv_rewind)
  then show ?case using Cons.IH by simp
qed

lemma isb_len_run: "length (isb_buffer (isb_run cs s)) = length (isb_buffer s)"
proof (induction cs arbitrary: s)
  case Nil
  then show ?case by simp
next
  case (Cons c cs)
  have "length (isb_buffer (isb_step c s)) = length (isb_buffer s)"
    by (cases c) (simp_all add: isb_len_next isb_len_rewind)
  then show ?case using Cons.IH [of "isb_step c s"] by simp
qed

lemma isb_fill_split:
  "isb_fill C buf ls = (b, r) \<Longrightarrow> buf @ ls = b @ r \<and> (r \<noteq> [] \<longrightarrow> C \<le> int (length b))"
  by (induction C buf ls arbitrary: b r rule: isb_fill.induct) (auto split: if_splits)

lemma hist_inv_init: "hist_inv C src [] (ISB_init src C)"
  using isb_fill_split [of C "[]" src]
  by (auto simp: ISB_init_def hist_inv_def split: prod.splits)

lemma hist_inv_next:
  assumes "hist_inv C src h s" and "ISB_next s = (Inr l, s')"
  shows "hist_inv C src (h @ [l]) s'"
proof -
  from assms(1) obtain pre where pre:
    "h = pre @ take (nat (isb_bufpos s)) (isb_buffer s)"
    "src = pre @ isb_buffer s @ isb_stream s"
    "0 \<le> isb_bufpos s" "isb_bufpos s \<le> int (length (isb_buffer s))"
    "pre \<noteq> [] \<longrightarrow> isb_bufpos s = int (length (isb_buffer s))"
    "pre \<noteq> [] \<or> isb_stream s \<noteq> [] \<longrightarrow> C \<le> int (length (isb_buffer s))"
    unfolding hist_inv_def by blast
  show ?thesis
  proof (cases "isb_bufpos s < int (length (isb_buffer s))")
    case True
    with pre(3) assms(2) have l: "l = isb_buffer s ! nat (isb_bufpos s)"
      and s': "s' = s\<lparr>isb_bufpos := isb_bufpos s + 1\<rparr>"
      by (auto simp: ISB_next_def py_index_def Let_def)
    from True pre(5) have "pre = []" by auto
    moreover have "take (nat (isb_bufpos s + 1)) (isb_buffer s)
        = take (nat (isb_bufpos s)) (isb_buffer s) @ [l]"
      using True pre(3) l by (simp add: nat_add_distrib take_Suc_conv_app_nth)
    ultimately show ?thesis
      unfolding hist_inv_def using pre True s'
      by (intro exI [of _ "[]"]) auto
  next
    case False
    with pre(4) have eq: "isb_bufpos s = int (length (isb_buffer s))" by simp
    with assms(2) obtain ls b bs where st: "isb_stream s = l # ls" "isb_buffer s = b # bs"
      and s': "s' = s\<lparr>isb_stream := ls, isb_buffer := bs @ [l]\<rparr>"
      by (auto simp: ISB_next_def py_index_def Let_def split: list.splits)
    show ?thesis
      unfolding hist_inv_def using pre eq st s'
      by (intro exI [of _ "pre @ [b]"]) auto
  qed
qed

lemma hist_inv_take:
  "hist_inv C src h s \<Longrightarrow> ISB_take k s = Inr (ls, s') \<Longrightarrow> hist_inv C src (h @ ls) s'"
proof (induction k arbitrary: h s ls)
  case 0
  then show ?case by simp
next
  case (Suc k)
  from Suc.prems(2) obtain l s1 ls1 where
    n: "ISB_next s = (Inr l, s1)" and t: "ISB_take k s1 = Inr (ls1, s')" and ls: "ls = l # ls1"
    by (auto split: prod.splits sum.splits)
  have "hist_inv C src ((h @ [l]) @ ls1) s'"
    by (rule Suc.IH [OF hist_inv_next [OF Suc.prems(1) n] t])
  with ls show ?case by simp
qed

lemma isb_take_length: "ISB_take k s = Inr (ls, s') \<Longrightarrow> length ls = k"
  by (induction k arbitrary: s ls) (auto split: prod.splits sum.splits)

lemma isb_next_in_window:
  "q < length (isb_buffer s) \<Longrightarrow> isb_bufpos s = int q \<Longrightarrow>
   ISB_next s = (Inr (isb_buffer s ! q), s\<lparr>isb_bufpos := int q + 1\<rparr>)"
  by (simp add: ISB_next_def py_index_def Let_def)

lemma isb_replay:
  "n \<le> p \<Longrightarrow> p \<le> length (isb_buffer s) \<Longrightarrow>
   ISB_take n (s\<lparr>isb_bufpos := int (p - n)\<rparr>) =
     Inr (take n (drop (p - n) (isb_buffer s)), s\<lparr>isb_bufpos := int p\<rparr>)"
proof (induction n arbitrary: s)
  case 0
  then show ?case by simp
next
  case (Suc n)
  define q where "q = p - Suc n"
  let ?s0 = "s\<lparr>isb_bufpos := int q\<rparr>"
  have q: "q < length (isb_buffer s)" "Suc q = p - n"
    using Suc.prems by (auto simp: q_def)
  have "ISB_next ?s0 = (Inr (isb_buffer ?s0 ! q), ?s0\<lparr>isb_bufpos := int q + 1\<rparr>)"
    by (rule isb_next_in_window) (use q in simp_all)
  then have nx: "ISB_next ?s0 = (Inr (isb_buffer s ! q), s\<lparr>isb_bufpos := int (p - n)\<rparr>)"
    using q(2) by (simp add: algebra_simps flip: of_nat_Suc)
  have tk: "take (Suc n) (drop q (isb_buffer s))
      = isb_buffer s ! q # take n (drop (p - n) (isb_buffer s))"
    using q by (simp flip: Cons_nth_drop_Suc)
  from Suc.prems have "n \<le> p" by simp
  from nx Suc.IH [OF this Suc.prems(2)] tk show ?case
    by (simp add: q_def)
qed

lemma isb_rewind_nat:
  "0 \<le> isb_bufpos s \<Longrightarrow> int n \<le> isb_bufpos s \<Longrightarrow>
   ISB_rewind (int n) s = s\<lparr>isb_bufpos := int (nat (isb_bufpos s) - n)\<rparr>"
  by (simp add: ISB_rewind_def of_nat_diff)

text \<open>
  Claim C8. Let \<open>k\<close> calls of \<^verbatim>\<open>next()\<close> on a fresh IStreamBuffer of capacity \<open>C\<close> have returned
  the lines \<open>ls\<close> and left the state \<open>s\<close>. For \<open>n\<close> at most \<open>C\<close> (and at most the \<open>k\<close> lines
  read so far), \<^verbatim>\<open>rewind(n)\<close> followed by \<open>n\<close> calls of \<^verbatim>\<open>next()\<close> returns the last \<open>n\<close> lines of
  \<open>ls\<close> again and ends in the very state \<open>s\<close>: the wrapped stream has not been read. For
  \<open>n\<close> beyond the retained history (the lines behind the cursor), \<^verbatim>\<open>rewind(n)\<close> puts the
  cursor at 0, and the next line returned is the oldest line of the window.
\<close>

theorem ISB_rewind_replays:
  assumes "ISB_take k (ISB_init src C) = Inr (ls, s)"
  shows "(n \<le> k \<and> int n \<le> C \<longrightarrow>
            ISB_take n (ISB_rewind (int n) s) = Inr (drop (k - n) ls, s)) \<and>
         (isb_bufpos s < int n \<longrightarrow>
            isb_bufpos (ISB_rewind (int n) s) = 0 \<and>
            (isb_buffer s \<noteq> [] \<longrightarrow>
               fst (ISB_next (ISB_rewind (int n) s)) = Inr (hd (isb_buffer s))))"
proof -
  have "hist_inv C src ([] @ ls) s"
    by (rule hist_inv_take [OF hist_inv_init assms])
  then obtain pre where pre:
    "ls = pre @ take (nat (isb_bufpos s)) (isb_buffer s)"
    "0 \<le> isb_bufpos s" "isb_bufpos s \<le> int (length (isb_buffer s))"
    "pre \<noteq> [] \<longrightarrow> isb_bufpos s = int (length (isb_buffer s))"
    "pre \<noteq> [] \<longrightarrow> C \<le> int (length (isb_buffer s))"
    unfolding hist_inv_def by auto
  define p where "p = nat (isb_bufpos s)"
  have p: "isb_bufpos s = int p" "p \<le> length (isb_buffer s)"
    using pre(2,3) by (auto simp: p_def)
  have ls_eq: "ls = pre @ take p (isb_buffer s)"
    using pre(1) by (simp add: p_def)
  have k: "k = length pre + p"
    using isb_take_length [OF assms] ls_eq p(2) by (simp add: min_absorb2)
  have s_eq: "s\<lparr>isb_bufpos := int p\<rparr> = s" using p(1) by simp
  have replay: "ISB_take n (ISB_rewind (int n) s) = Inr (drop (k - n) ls, s)"
    if "n \<le> k" "int n \<le> C"
  proof -
    have np: "n \<le> p"
    proof (cases "pre = []")
      case True
      with k that show ?thesis by simp
    next
      case False
      with pre(4,5) p that show ?thesis by simp
    qed
    have "ISB_rewind (int n) s = s\<lparr>isb_bufpos := int (p - n)\<rparr>"
      using isb_rewind_nat [of s n] np p(1) by simp
    moreover have "drop (k - n) ls = take n (drop (p - n) (isb_buffer s))"
      using np k ls_eq by (simp add: drop_take)
    ultimately show ?thesis
      using isb_replay [OF np p(2)] s_eq by simp
  qed
  have clamp: "isb_bufpos (ISB_rewind (int n) s) = 0" if "isb_bufpos s < int n"
    using that by (simp add: ISB_rewind_def)
  have first: "fst (ISB_next (ISB_rewind (int n) s)) = Inr (hd (isb_buffer s))"
    if "isb_bufpos s < int n" "isb_buffer s \<noteq> []"
    using that by (cases "isb_buffer s") (simp_all add: ISB_rewind_def ISB_next_def py_index_def)
  from replay clamp first show ?thesis by blast
qed

theorem ISB_rewind_replays_witness:
  "ISB_take 3 (ISB_init [''a'', ''b'', ''c'', ''d'', ''e''] 2)
     = Inr ([''a'', ''b'', ''c''],
         \<lparr>isb_stream = [''d'', ''e''], isb_buffer = [''b'', ''c''], isb_bufpos = 2\<rparr>) \<and>
   ISB_take 2 (ISB_rewind 2
       \<lparr>isb_stream = [''d'', ''e''], isb_buffer = [''b'', ''c''], isb_bufpos = 2\<rparr>)
     = Inr ([''b'', ''c''],
         \<lparr>isb_stream = [''d'', ''e''], isb_buffer = [''b'', ''c''], isb_bufpos = 2\<rparr>) \<and>
   isb_bufpos (ISB_rewind 5
       \<lparr>isb_stream = [''d'', ''e''], isb_buffer = [''b'', ''c''], isb_bufpos = 2\<rparr>) = 0 \<and>
   fst (ISB_next (ISB_rewind 5
       \<lparr>isb_stream = [''d'', ''e''], isb_buffer = [''b'', ''c''], isb_bufpos = 2\<rparr>)) = Inr ''b''"
proof -
  have t: "ISB_take 3 (ISB_init [''a'', ''b'', ''c'', ''d'', ''e''] 2)
     = Inr ([''a'', ''b'', ''c''],
         \<lparr>isb_stream = [''d'', ''e''], isb_buffer = [''b'', ''c''], isb_bufpos = 2\<rparr>)"
    by (simp add: ISB_init_def ISB_next_def py_index_def numeral_3_eq_3)
  from ISB_rewind_replays [OF t, of 2] ISB_rewind_replays [OF t, of 5] t show ?thesis by simp
qed

text \<open>
  Claim C10. For a capacity \<open>C\<close> (not negative), after construction and after any sequence
  of \<^verbatim>\<open>next()\<close> and \<^verbatim>\<open>rewind()\<close> calls the window holds at most \<open>C\<close> lines, the cursor lies
  between 0 and the window length, and the window has the length it had after
  construction; a \<^verbatim>\<open>next()\<close> past the window that gets a line \<open>l\<close> from the stream drops the
  oldest entry and appends \<open>l\<close>.
\<close>

theorem isb_window_invariant:
  assumes "0 \<le> C"
  shows "isb_inv C (isb_run cs (ISB_init src C)) \<and>
         length (isb_buffer (isb_run cs (ISB_init src C))) = length (isb_buffer (ISB_init src C)) \<and>
         (\<forall>s l ls. s = isb_run cs (ISB_init src C) \<and> isb_bufpos s = int (length (isb_buffer s)) \<and>
            isb_buffer s \<noteq> [] \<and> isb_stream s = l # ls \<longrightarrow>
            ISB_next s = (Inr l, s\<lparr>isb_stream := ls, isb_buffer := tl (isb_buffer s) @ [l]\<rparr>))"
proof -
  have "ISB_next s = (Inr l, s\<lparr>isb_stream := ls, isb_buffer := tl (isb_buffer s) @ [l]\<rparr>)"
    if "isb_bufpos s = int (length (isb_buffer s))" "isb_buffer s \<noteq> []" "isb_stream s = l # ls"
    for s l ls
    using that by (cases "isb_buffer s") (simp_all add: ISB_next_def py_index_def)
  then show ?thesis
    using assms by (simp add: isb_inv_run isb_inv_init isb_len_run)
qed

theorem isb_window_invariant_witness:
  "(0::int) \<le> 2 \<and>
   isb_run [Next, Rewind 5, Next, Next] (ISB_init [''a'', ''b'', ''c''] 2)
     = \<lparr>isb_stream = [''c''], isb_buffer = [''a'', ''b''], isb_bufpos = 2\<rparr> \<and>
   isb_inv 2 \<lparr>isb_stream = [''c''], isb_buffer = [''a'', ''b''], isb_bufpos = 2\<rparr> \<and>
   length (isb_buffer (ISB_init [''a'', ''b'', ''c''] 2)) = 2 \<and>
   ISB_next \<lparr>isb_stream = [''c''], isb_buffer = [''a'', ''b''], isb_bufpos = 2\<rparr>
     = (Inr ''c'', \<lparr>isb_stream = [], isb_buffer = [''b'', ''c''], isb_bufpos = 2\<rparr>)"
proof -
  have r: "isb_run [Next, Rewind 5, Next, Next] (ISB_init [''a'', ''b'', ''c''] 2)
     = \<lparr>isb_stream = [''c''], isb_buffer = [''a'', ''b''], isb_bufpos = 2\<rparr>"
    by (simp add: ISB_init_def ISB_next_def ISB_rewind_def py_index_def)
  from isb_window_invariant [of 2 "[Next, Rewind 5, Next, Next]" "[''a'', ''b'', ''c'']"] r
  show ?thesis by simp
qed

section \<open>Properties of the token merge\<close>

lemma merge_loop_splice:
  "pos \<le> length tokens \<Longrightarrow>
   merge_loop pos tokens = take pos tokens @ concat (map splice1 (drop pos tokens))"
proof (induction pos tokens rule: merge_loop.induct)
  case (1 pos tokens)
  show ?case
  proof (cases "pos < length tokens")
    case False
    with "1.prems" show ?thesis by (subst merge_loop.simps) simp
  next
    case True
    then have d: "drop pos tokens = tokens ! pos # drop (Suc pos) tokens"
      by (simp add: Cons_nth_drop_Suc)
    show ?thesis
    proof (cases "tokens ! pos")
      case (Str s)
      have "merge_loop (pos + 1) tokens
          = take (pos + 1) tokens @ concat (map splice1 (drop (pos + 1) tokens))"
        using True by (intro "1.IH"(1) [OF True Str]) simp
      with True Str d show ?thesis
        by (subst merge_loop.simps) (simp add: take_Suc_conv_app_nth)
    next
      case (Seq ts)
      let ?t' = "take pos tokens @ ts @ drop (pos + 1) tokens"
      have "merge_loop (pos + length ts) ?t'
          = take (pos + length ts) ?t' @ concat (map splice1 (drop (pos + length ts) ?t'))"
        using True by (intro "1.IH"(2) [OF True Seq]) simp
      with True Seq d show ?thesis
        by (subst merge_loop.simps) (simp add: min_absorb2)
    qed
  qed
qed

lemma strings_of_all_Str: "list_all is_Str ts \<Longrightarrow> strings_of ts = Inr (map the_Str ts)"
  by (induction ts rule: strings_of.induct) auto

lemma shallow_splice1:
  "list_all flat_token tokens \<Longrightarrow> list_all is_Str (concat (map splice1 tokens))"
proof (induction tokens)
  case Nil
  then show ?case by simp
next
  case (Cons t tokens)
  then show ?case by (cases t) simp_all
qed

lemma join_strs_empty: "join_strs [] ss = concat ss"
  by (induction "[] :: string" ss rule: join_strs.induct) simp_all

text \<open>
  Claim C2, as amended. The flattening pass of \<^verbatim>\<open>_merge\<close> walks the token list left to right,
  moves one position past a string, and replaces an entry that is a sequence by its elements,
  moving past them without looking at them again: the result is the list with exactly one
  level of nesting removed. When the nested sequences hold strings only, the result is all
  strings and \<^verbatim>\<open>DelimitedWriter._merge\<close> returns them joined by the delimiter,
  \<^verbatim>\<open>FixedWidthWriter._merge\<close> their concatenation.
\<close>

theorem merge_flattens_one_level:
  "merge_loop 0 tokens = concat (map splice1 tokens) \<and>
   (shallow tokens \<longrightarrow>
      list_all is_Str (merge_loop 0 tokens) \<and>
      DelimitedWriter_merge delim tokens
        = Inr (join_strs delim (map the_Str (concat (map splice1 tokens)))) \<and>
      FixedWidthWriter_merge tokens = Inr (concat (map the_Str (concat (map splice1 tokens)))))"
proof -
  have m: "merge_loop 0 tokens = concat (map splice1 tokens)"
    using merge_loop_splice [of 0 tokens] by simp
  have "list_all is_Str (concat (map splice1 tokens))" if "shallow tokens"
    using that by (simp add: shallow_def shallow_splice1)
  then show ?thesis
    using strings_of_all_Str [of "concat (map splice1 tokens)"]
    by (simp add: m DelimitedWriter_merge_def FixedWidthWriter_merge_def py_join_def
        join_strs_empty)
qed

theorem merge_flattens_one_level_witness:
  "shallow [Str ''x'', Seq [Str ''a'', Str ''b''], Str ''y''] \<and>
   merge_loop 0 [Str ''x'', Seq [Str ''a'', Str ''b''], Str ''y'']
     = [Str ''x'', Str ''a'', Str ''b'', Str ''y''] \<and>
   DelimitedWriter_merge '','' [Str ''x'', Seq [Str ''a'', Str ''b''], Str ''y''] = Inr ''x,a,b,y'' \<and>
   FixedWidthWriter_merge [Str ''x'', Seq [Str ''a'', Str ''b''], Str ''y''] = Inr ''xaby''"
proof -
  have s: "shallow [Str ''x'', Seq [Str ''a'', Str ''b''], Str ''y'']"
    by (simp add: shallow_def)
  from merge_flattens_one_level [of "[Str ''x'', Seq [Str ''a'', Str ''b''], Str ''y'']" "'',''"] s
  show ?thesis by simp
qed

text \<open>
  A sequence nested two levels deep is not flattened: its inner sequence stays in the list,
  and the join raises TypeError.
\<close>

theorem merge_nested_counterexample:
  "merge_loop 0 [Seq [Seq [Str ''a'']]] = [Seq [Str ''a'']] \<and>
   DelimitedWriter_merge '','' [Seq [Seq [Str ''a'']]] = Inl TypeError \<and>
   FixedWidthWriter_merge [Seq [Seq [Str ''a'']]] = Inl TypeError"
  by (simp add: merge_loop.simps DelimitedWriter_merge_def FixedWidthWriter_merge_def py_join_def)

section \<open>Properties of IStreamZlib\<close>

text \<open>
  Claim C1 asks that iterating \<^verbatim>\<open>next()\<close> yields the lines of the uncompressed text whatever
  the block size, also when a read decompresses to nothing while the source still has data.
  The code takes an empty result of \<^verbatim>\<open>decompress\<close> for the end of the source. Evaluated on the
  text \<^verbatim>\<open>ab\ncd\n\<close> whose first block gives no output (a block inside a gzip header),
  \<^verbatim>\<open>next()\<close> raises StopIteration at once and the iteration yields no line; when the empty
  result comes in the middle of the line \<^verbatim>\<open>abc\n\<close>, the line is cut in two.
\<close>

theorem Z_next_empty_read_ends_input:
  "Z_next (Z_init ['''', ''ab\<newline>'', ''cd\<newline>''])
     = (Inl StopIteration, \<lparr>z_pending = [''ab\<newline>'', ''cd\<newline>''], z_buffer = []\<rparr>) \<and>
   Z_lines (Z_init ['''', ''ab\<newline>'', ''cd\<newline>'']) = [] \<and>
   text_lines (concat ['''', ''ab\<newline>'', ''cd\<newline>'']) = [''ab\<newline>'', ''cd\<newline>''] \<and>
   Z_lines (Z_init [''ab'', '''', ''c\<newline>'']) = [''ab'', ''c\<newline>''] \<and>
   text_lines (concat [''ab'', '''', ''c\<newline>'']) = [''abc\<newline>'']"
  by (simp add: Z_lines.simps Z_next_def Z_init_def Z_scan.simps Z_read_def text_lines_def)

lemma list_index_append:
  "list_index x (a @ b) =
     (case list_index x a of
        Inr i \<Rightarrow> Inr i
      | Inl e \<Rightarrow> (case list_index x b of Inr j \<Rightarrow> Inr (length a + j) | Inl e' \<Rightarrow> Inl e'))"
  by (induction a) (auto split: sum.splits)

lemma list_index_less: "list_index x xs = Inr i \<Longrightarrow> i < length xs"
  by (induction xs arbitrary: i) (auto split: sum.splits if_splits)

lemma text_lines_acc_index:
  "text_lines_acc cur s =
     (case list_index CHR 0x0A s of
        Inr i \<Rightarrow> (cur @ take (Suc i) s) # text_lines_acc [] (drop (Suc i) s)
      | Inl e \<Rightarrow> (if cur @ s = [] then [] else [cur @ s]))"
  by (induction s arbitrary: cur) (auto split: sum.splits)

lemma text_lines_index:
  "text_lines s =
     (case list_index CHR 0x0A s of
        Inr i \<Rightarrow> take (Suc i) s # text_lines (drop (Suc i) s)
      | Inl e \<Rightarrow> (if s = [] then [] else [s]))"
  unfolding text_lines_def by (subst text_lines_acc_index) (simp split: sum.splits)

lemma Z_scan_spec:
  "\<forall>d \<in> set (z_pending s). d \<noteq> [] \<Longrightarrow> Z_scan s = (pos, s') \<Longrightarrow>
   z_rest s' = z_rest s \<and> (\<forall>d \<in> set (z_pending s'). d \<noteq> []) \<and>
   (case list_index CHR 0x0A (z_rest s) of
      Inr i \<Rightarrow> pos = Suc i \<and> i < length (z_buffer s')
    | Inl e \<Rightarrow> pos = length (z_buffer s') \<and> z_pending s' = [])"
proof (induction s arbitrary: pos s' rule: Z_scan.induct)
  case (1 s)
  show ?case
  proof (cases "list_index CHR 0x0A (z_buffer s)")
    case (Inr i)
    then have "Z_scan s = (Suc i, s)" by (simp add: Z_scan.simps [of s])
    with "1.prems"(2) have p: "pos = Suc i" and s: "s' = s" by auto
    show ?thesis unfolding p s using Inr "1.prems"(1) list_index_less [OF Inr]
      by (simp add: z_rest_def list_index_append)
  next
    case (Inl e)
    show ?thesis
    proof (cases "z_pending s")
      case Nil
      with Inl have "Z_scan s = (length (z_buffer s), s)"
        by (simp add: Z_scan.simps [of s] Z_read_def)
      with "1.prems"(2) have p: "pos = length (z_buffer s)" and s: "s' = s" by auto
      show ?thesis unfolding p s using Inl Nil by (simp add: z_rest_def)
    next
      case (Cons d ds)
      let ?s1 = "s\<lparr>z_pending := ds, z_buffer := z_buffer s @ d\<rparr>"
      from Cons "1.prems"(1) have d: "d \<noteq> []" and ds: "\<forall>d \<in> set (z_pending ?s1). d \<noteq> []"
        by simp_all
      from Cons d have rd: "Z_read s = (True, ?s1)" by (simp add: Z_read_def)
      with Inl "1.prems"(2) have sc: "Z_scan ?s1 = (pos, s')" by (simp add: Z_scan.simps [of s])
      have rest: "z_rest ?s1 = z_rest s" using Cons by (simp add: z_rest_def)
      from "1.IH" [OF Inl rd [symmetric] refl ds sc] rest show ?thesis by simp
    qed
  qed
qed

lemma Z_lines_spec:
  "\<forall>d \<in> set (z_pending s). d \<noteq> [] \<Longrightarrow> Z_lines s = text_lines (z_rest s)"
proof (induction s rule: Z_lines.induct)
  case (1 s)
  obtain pos s' where sc: "Z_scan s = (pos, s')" by (cases "Z_scan s")
  from Z_scan_spec [OF "1.prems" sc] have
    rest: "z_rest s' = z_rest s" and ne: "\<forall>d \<in> set (z_pending s'). d \<noteq> []"
    and ix: "case list_index CHR 0x0A (z_rest s) of
        Inr i \<Rightarrow> pos = Suc i \<and> i < length (z_buffer s')
      | Inl e \<Rightarrow> pos = length (z_buffer s') \<and> z_pending s' = []"
    by simp_all
  show ?case
  proof (cases "z_buffer s' = []")
    case True
    with sc have "Z_lines s = []" by (simp add: Z_lines.simps [of s] Z_next_def)
    moreover from True ix rest have "z_rest s = []"
      by (auto simp: z_rest_def split: sum.splits)
    ultimately show ?thesis by (simp add: text_lines_index [of "[]"])
  next
    case False
    let ?s2 = "s'\<lparr>z_buffer := drop pos (z_buffer s')\<rparr>"
    from False sc have nx: "Z_next s = (Inr (take pos (z_buffer s')), ?s2)"
      by (simp add: Z_next_def)
    then have zl: "Z_lines s = take pos (z_buffer s') # Z_lines ?s2"
      by (simp add: Z_lines.simps [of s])
    have ih: "Z_lines ?s2 = text_lines (z_rest ?s2)"
      by (rule "1.IH" [OF nx [symmetric] refl]) (use ne in simp)
    have rs: "z_rest s = z_buffer s' @ concat (z_pending s')"
      using rest z_rest_def [of s'] by simp
    have r2: "z_rest ?s2 = drop pos (z_buffer s') @ concat (z_pending s')"
      by (simp add: z_rest_def)
    show ?thesis
    proof (cases "list_index CHR 0x0A (z_rest s)")
      case (Inr i)
      with ix have p: "pos = Suc i" "i < length (z_buffer s')" by simp_all
      have "take (Suc i) (z_rest s) = take pos (z_buffer s')"
        unfolding rs using p by simp
      moreover have "drop (Suc i) (z_rest s) = z_rest ?s2"
        unfolding rs r2 using p by simp
      ultimately show ?thesis
        using Inr zl ih by (subst text_lines_index) simp
    next
      case (Inl e)
      with ix have p: "pos = length (z_buffer s')" "z_pending s' = []" by simp_all
      have e2: "z_rest ?s2 = []" unfolding r2 using p by simp
      have tk: "take pos (z_buffer s') = z_rest s" unfolding rs using p by simp
      have ne': "z_rest s \<noteq> []" unfolding rs using False by simp
      have "text_lines (z_rest s) = [z_rest s]"
        using Inl ne' by (subst text_lines_index) simp
      moreover have "text_lines [] = []" by (simp add: text_lines_def)
      ultimately show ?thesis using zl ih e2 tk by simp
    qed
  qed
qed

text \<open>
  The other side of the same behaviour: as long as every read made while data is pending
  decompresses to at least one character, iterating \<^verbatim>\<open>next()\<close> yields exactly the lines of the
  uncompressed text, the last one also when it has no terminator.
\<close>

theorem Z_lines_nonempty_reads:
  "\<forall>d \<in> set outputs. d \<noteq> [] \<Longrightarrow> Z_lines (Z_init outputs) = text_lines (concat outputs)"
  using Z_lines_spec [of "Z_init outputs"] by (simp add: Z_init_def z_rest_def)

theorem Z_lines_nonempty_reads_witness:
  "Z_lines (Z_init [''a'', ''b\<newline>c'', ''d\<newline>e'']) = [''ab\<newline>'', ''cd\<newline>'', ''e''] \<and>
   text_lines (concat [''a'', ''b\<newline>c'', ''d\<newline>e'']) = [''ab\<newline>'', ''cd\<newline>'', ''e'']"
proof -
  have "\<forall>d \<in> set [''a'', ''b\<newline>c'', ''d\<newline>e'']. d \<noteq> []" by simp
  from Z_lines_nonempty_reads [OF this] show ?thesis by (simp add: text_lines_def)
qed

section \<open>Properties of filters and the reader loop\<close>





lemma apply_filters_append:
  "apply_filters (fs @ gs) r =
     (case apply_filters fs r of
        Inl e \<Rightarrow> Inl e
      | Inr None \<Rightarrow> Inr None
      | Inr (Some r') \<Rightarrow> apply_filters gs r')"
  by (induction fs arbitrary: r) (auto split: sum.splits option.splits)




text \<open>
  Claim C9, as amended. The writer's \<^verbatim>\<open>filter\<close> takes at most one callback: with no argument
  it clears the filters, and with one callback it appends it, both as the reader's does. With
  the single argument \<open>None\<close> it clears the filters (the reader's appends \<open>None\<close>), and with
  two or more arguments it raises TypeError (the reader's appends them all in order).
\<close>

theorem Writer_filter_single:
  "Writer_filter [] filters = Inr (Reader_filter [] filters) \<and>
   Writer_filter [Some cb] filters = Inr (Reader_filter [Some cb] filters) \<and>
   Writer_filter [None] filters = Inr [] \<and>
   Reader_filter [None] filters = filters @ [None] \<and>
   Writer_filter (a # b # cs) filters = Inl TypeError \<and>
   Reader_filter (a # b # cs) filters = filters @ a # b # cs"
  by (simp add: Writer_filter_def Reader_filter_def)

text \<open>A call with two callbacks: the writer raises, the reader appends both.\<close>

theorem Writer_filter_two_callbacks:
  "Writer_filter [Some (1::nat), Some 2] [] = Inl TypeError \<and>
   Reader_filter [Some (1::nat), Some 2] [] = [Some 1, Some 2]"
  by (simp add: Writer_filter_def Reader_filter_def)

text \<open>
  Claim C5 asks for a \<^verbatim>\<open>fields()\<close> query on tabular readers and writers. The writers have
  it, and it returns the names in declaration order. No class of reader.py defines
  \<^verbatim>\<open>fields\<close>: the call that \<^verbatim>\<open>test_fields\<close> of test_reader.py makes on a reader raises
  AttributeError.
\<close>

theorem reader_has_no_fields:
  "call_fields C_DelimitedReader fieldset = Inl AttributeError \<and>
   call_fields C_FixedWidthReader fieldset = Inl AttributeError \<and>
   call_fields C_DelimitedWriter fieldset = Inr (map field_name fieldset) \<and>
   call_fields C_FixedWidthWriter fieldset = Inr (map field_name fieldset)"
  by (simp add: call_fields_def has_attr_def TabularWriter_fields_def)

section \<open>Properties of the tabular readers and writers\<close>



















lemma collect_length: "collect g xs = Inr ys \<Longrightarrow> length ys = length xs"
  by (induction xs arbitrary: ys) (auto split: sum.splits)













section \<open>Properties of ReaderSequence\<close>












end
